theory Spec2Isabelle
  imports Complex_Main "HOL-Library.Sublist"
begin

section \<open>JavaScript values and strings\<close>

text \<open>
  A value that is either \<open>undefined\<close>/\<open>null\<close> or a string is a \<open>string option\<close>.
  JavaScript treats \<open>undefined\<close>, \<open>null\<close> and the empty string as falsy.
\<close>

definition truthy :: "string option \<Rightarrow> bool" where
  "truthy v = (case v of None \<Rightarrow> False | Some s \<Rightarrow> s \<noteq> [])"

text \<open>\<open>a || b\<close> on such values.\<close>

definition or_else :: "string option \<Rightarrow> string option \<Rightarrow> string option" where
  "or_else a b = (if truthy a then a else b)"

text \<open>\<open>s.includes(t)\<close>: \<open>t\<close> occurs in \<open>s\<close> as a contiguous substring.\<close>

fun includes_str :: "string \<Rightarrow> string \<Rightarrow> bool" where
  "includes_str [] t = (t = [])"
| "includes_str (c # cs) t = (prefix t (c # cs) \<or> includes_str cs t)"

text \<open>
  \<open>s.toLowerCase()\<close> on the ASCII letters; the keywords the agent looks for are ASCII.
\<close>

definition lower_char :: "char \<Rightarrow> char" where
  "lower_char c =
     (let n = (of_char c :: nat) in if 65 \<le> n \<and> n \<le> 90 then char_of (n + 32) else c)"

definition toLowerCase :: "string \<Rightarrow> string" where
  "toLowerCase s = map lower_char s"

text \<open>
  \<open>s.replace(pat, rep)\<close> with a string pattern: the first occurrence of \<open>pat\<close> is
  replaced. The replacement is inserted as it is (task identifiers hold no \<open>$\<close>).
\<close>

fun replace :: "string \<Rightarrow> string \<Rightarrow> string \<Rightarrow> string" where
  "replace [] pat rep = (if pat = [] then rep else [])"
| "replace (c # cs) pat rep =
     (if prefix pat (c # cs) then rep @ drop (length pat) (c # cs)
      else c # replace cs pat rep)"

text \<open>
  A thrown \<open>Error\<close>: its \<open>message\<close> and, for an HTTP error raised by axios, the
  status of \<open>error.response\<close>.
\<close>

datatype js_error = Error (err_message: string) (response_status: "nat option")

text \<open>The settlement of an awaited promise.\<close>

datatype 'a reply = Rejects js_error | Resolves 'a

section \<open>Observable effects\<close>

text \<open>
  A JavaScript number is finite, \<open>NaN\<close> or an infinity; only this distinction
  matters here, no arithmetic is done on prices.
\<close>

datatype jsnum = Finite real | NaN | PosInfinity | NegInfinity

text \<open>\<open>Number(x)\<close> applied to a number returns it.\<close>

definition Number :: "jsnum \<Rightarrow> jsnum" where
  "Number x = x"

text \<open>
  The body of a POST request, and the text of the price alert, whose template is
  \<open>PRICE ALERT: symbol is now $price (below your limit of $threshold). Initiating
  purchase of your item!\<close> with the three interpolated values kept as they are.
\<close>

datatype post_body = NoBody | MonitorStart string jsnum nat

datatype notification = PriceAlert string jsnum jsnum

text \<open>
  What the two classes do to the outside world, in the order they do it. The first
  argument of \<open>PurchaseProduct\<close> is the \<open>sessionId\<close> that the error handler
  attached to the call closes over; the others are the arguments of
  \<open>shopifyAgent.purchaseProduct\<close>.
\<close>

datatype effect =
    Sleep nat
  | AxiosGet string
  | AxiosPost string post_body
  | FetchWithPayment string string string
  | LogProgress string
  | SendUpdate string string
  | SendNotification string notification
  | PurchaseProduct string string string string
  | SetInterval nat nat
  | ClearInterval nat

section \<open>ShopifyAgent\<close>

record progress_step =
  message :: string
  timestamp :: string

record result_data =
  progress :: "progress_step list option"
  order_details :: "string option"

record task_data =
  current_status :: "string option"
  status :: "string option"
  result_data :: "result_data option"
  error_message :: "string option"

record create_response =
  ok :: bool
  status_text :: string
  body_text :: string
  json_task_id :: "string option reply"

record agent =
  privateKey :: "string option"
  taskEndpoint :: string

definition new_agent :: "string option \<Rightarrow> agent" where
  "new_agent key =
     \<lparr>privateKey = key,
      taskEndpoint = ''https://undecorously-uncongestive-cindy.ngrok-free.dev/tasks/create''\<rparr>"

text \<open>
  \<open>getAccount\<close>: the key is prefixed with \<open>0x\<close> when it lacks it and handed to
  \<open>privateKeyToAccount\<close>, a library function given here as a parameter.
\<close>

definition getAccount :: "(string \<Rightarrow> js_error + string) \<Rightarrow> agent \<Rightarrow> js_error + string" where
  "getAccount privateKeyToAccount a =
     (if \<not> truthy (privateKey a)
      then Inl (Error ''WALLET_PRIVATE_KEY not found in environment variables'' None)
      else (let k = the (privateKey a);
                formattedKey = (if prefix ''0x'' k then k else ''0x'' @ k)
            in privateKeyToAccount formattedKey))"

text \<open>\<open>sendUpdate\<close> catches every failure of the delivery: it is one effect.\<close>

definition sendUpdate :: "string \<Rightarrow> string \<Rightarrow> effect list" where
  "sendUpdate handle msg = [SendUpdate handle msg]"

text \<open>The callback of \<open>newSteps.forEach\<close>.\<close>

definition surface_step :: "string option \<Rightarrow> progress_step \<Rightarrow> effect list" where
  "surface_step userHandle step =
     LogProgress (message step) #
     (if truthy userHandle then
        (let msgLower = toLowerCase (message step) in
         if includes_str msgLower ''adding'' \<and> includes_str msgLower ''cart''
           then sendUpdate (the userHandle) ''Found the item! Adding it to cart...''
         else if includes_str msgLower ''checkout''
           then sendUpdate (the userHandle) ''Heading to checkout now...''
         else if includes_str msgLower ''submitting''
           then sendUpdate (the userHandle) ''Almost there, submitting the order...''
         else [])
      else [])"

text \<open>
  The progress block of one poll: the new value of \<open>lastProgressCount\<close> and the
  effects of surfacing \<open>steps.slice(lastProgressCount)\<close>.
\<close>

definition handle_progress :: "string option \<Rightarrow> nat \<Rightarrow> task_data \<Rightarrow> nat \<times> effect list" where
  "handle_progress userHandle lastProgressCount data =
     (case result_data data of
        None \<Rightarrow> (lastProgressCount, [])
      | Some rd \<Rightarrow>
          (case progress rd of
             None \<Rightarrow> (lastProgressCount, [])
           | Some steps \<Rightarrow>
               if length steps > lastProgressCount
               then (length steps,
                     concat (map (surface_step userHandle) (drop lastProgressCount steps)))
               else (lastProgressCount, [])))"

definition maxAttempts :: nat where
  "maxAttempts = 120"

text \<open>
  The test of the \<open>catch\<close> inside the polling loop: the error is thrown again when
  its message contains \<open>Task failed\<close>, otherwise it is logged and the loop goes on.
\<close>

definition rethrown :: "js_error \<Rightarrow> bool" where
  "rethrown e = (err_message e = ''Task failed'' \<or> includes_str (err_message e) ''Task failed'')"

definition success_update :: "string option \<Rightarrow> task_data \<Rightarrow> effect list" where
  "success_update userHandle data =
     (if truthy userHandle then
        sendUpdate (the userHandle)
          (''Success! Order placed. '' @
           (let od = (case result_data data of None \<Rightarrow> None | Some rd \<Rightarrow> order_details rd)
            in if truthy od then the od
               else [CHR 0x22] @ ''Check email for confirmation.'' @ [CHR 0x22]))
      else [])"

definition emit :: "effect list \<Rightarrow> 'a \<times> effect list \<Rightarrow> 'a \<times> effect list" where
  "emit fx r = (fst r, fx @ snd r)"

text \<open>
  \<open>order_details\<close> holds the JSON text of the order details when the reply
  carries them.

  The loop \<open>for (let i = 0; i < maxAttempts; i++)\<close> of \<open>pollTaskStatus\<close>, from
  iteration \<open>i\<close> with the current \<open>lastProgressCount\<close>. \<open>env i\<close> is the settlement
  of the status request of iteration \<open>i\<close>.
\<close>

function pollLoop ::
  "string option \<Rightarrow> string \<Rightarrow> (nat \<Rightarrow> task_data reply) \<Rightarrow> nat \<Rightarrow> nat
     \<Rightarrow> (js_error + task_data) \<times> effect list" where
  "pollLoop userHandle statusUrl env i lastProgressCount =
     (if i < maxAttempts then
        emit [Sleep 1000, AxiosGet statusUrl]
          (case env i of
             Rejects e \<Rightarrow>
               if rethrown e then (Inl e, [])
               else pollLoop userHandle statusUrl env (i + 1) lastProgressCount
           | Resolves data \<Rightarrow>
               (let st = or_else (current_status data) (status data);
                    (count, fx) = handle_progress userHandle lastProgressCount data
                in emit fx
                  (if st = Some ''completed'' \<or> st = Some ''success''
                   then (Inr data, success_update userHandle data)
                   else if st = Some ''failed'' \<or> st = Some ''error''
                   then (let e = Error (the (or_else (error_message data) (Some ''Task failed''))) None
                         in if rethrown e then (Inl e, [])
                            else pollLoop userHandle statusUrl env (i + 1) count)
                   else pollLoop userHandle statusUrl env (i + 1) count)))
      else (Inl (Error ''Task timed out'' None), []))"
  by pat_completeness auto
termination
  by (relation "measure (\<lambda>(h, u, env, i, c). maxAttempts - i)") auto

declare pollLoop.simps [simp del]

definition statusUrl :: "agent \<Rightarrow> string \<Rightarrow> string" where
  "statusUrl a taskId = replace (taskEndpoint a) ''/create'' (''/'' @ taskId)"

definition pollTaskStatus ::
  "agent \<Rightarrow> (nat \<Rightarrow> task_data reply) \<Rightarrow> string \<Rightarrow> string option
     \<Rightarrow> (js_error + task_data) \<times> effect list" where
  "pollTaskStatus a env taskId userHandle = pollLoop userHandle (statusUrl a taskId) env 0 0"

text \<open>
  The \<open>catch\<close> of \<open>purchaseProduct\<close>: the user is told, the error is thrown
  again.
\<close>

definition purchase_failed ::
  "string option \<Rightarrow> js_error \<Rightarrow> (js_error + task_data) \<times> effect list" where
  "purchase_failed userHandle e =
     (Inl e,
      if truthy userHandle
      then sendUpdate (the userHandle) (''Purchase failed: '' @ err_message e)
      else [])"

text \<open>
  The outside world of one purchase: the library that derives the account, the
  settlement of the paid task-creation request, and the settlements of the status
  requests.
\<close>

record purchase_env =
  privateKeyToAccount :: "string \<Rightarrow> js_error + string"
  create_reply :: "create_response reply"
  status_replies :: "nat \<Rightarrow> task_data reply"

definition purchaseProduct ::
  "agent \<Rightarrow> purchase_env \<Rightarrow> string \<Rightarrow> string \<Rightarrow> string option
     \<Rightarrow> (js_error + task_data) \<times> effect list" where
  "purchaseProduct a env productUrl size_v userHandle =
     (case getAccount (privateKeyToAccount env) a of
        Inl e \<Rightarrow> purchase_failed userHandle e
      | Inr account \<Rightarrow>
          emit [FetchWithPayment (taskEndpoint a) productUrl size_v]
            (case create_reply env of
               Rejects e \<Rightarrow> purchase_failed userHandle e
             | Resolves response \<Rightarrow>
                 if \<not> ok response
                 then purchase_failed userHandle
                        (Error (''Payment/Task failed: '' @ status_text response @ '' '' @
                                body_text response) None)
                 else
                   (case json_task_id response of
                      Rejects e \<Rightarrow> purchase_failed userHandle e
                    | Resolves taskId \<Rightarrow>
                        if \<not> truthy taskId
                        then purchase_failed userHandle
                               (Error ''No task_id returned from service'' None)
                        else
                          emit (if truthy userHandle
                                then sendUpdate (the userHandle)
                                  (''Payment confirmed! I'' @ [CHR 0x27] @
                                   ''ve started the purchase process for you.'')
                                else [])
                            (case pollTaskStatus a (status_replies env) (the taskId) userHandle of
                               (Inl e, fx) \<Rightarrow> emit fx (purchase_failed userHandle e)
                             | (Inr r, fx) \<Rightarrow> (Inr r, fx)))))"

section \<open>PriceMonitor\<close>

record session =
  userHandle :: string
  productUrl :: string
  size_v :: string
  symbol :: string
  threshold :: jsnum
  startTime :: nat

text \<open>
  \<open>activeSessions\<close> is a JavaScript \<open>Map\<close>, which is iterated while it is
  changed. Its entries are kept in insertion order; \<open>delete\<close> empties the slot of the
  key (\<open>None\<close>), \<open>set\<close> overwrites the value of a present key and appends a slot
  for a new one, and an iterator is a position in the list of slots that skips the
  empty ones.
\<close>

type_synonym session_map = "(string \<times> session) option list"

definition map_size :: "session_map \<Rightarrow> nat" where
  "map_size m = length (filter (\<lambda>e. e \<noteq> None) m)"

definition map_keys :: "session_map \<Rightarrow> string list" where
  "map_keys m = concat (map (\<lambda>e. case e of None \<Rightarrow> [] | Some (k, v) \<Rightarrow> [k]) m)"

definition map_has :: "session_map \<Rightarrow> string \<Rightarrow> bool" where
  "map_has m k = (k \<in> set (map_keys m))"

definition map_delete :: "string \<Rightarrow> session_map \<Rightarrow> session_map" where
  "map_delete k m =
     map (\<lambda>e. case e of None \<Rightarrow> None | Some (k', v) \<Rightarrow> if k' = k then None else e) m"

definition map_set :: "string \<Rightarrow> session \<Rightarrow> session_map \<Rightarrow> session_map" where
  "map_set k v m =
     (if map_has m k
      then map (\<lambda>e. case e of None \<Rightarrow> None
                          | Some (k', v') \<Rightarrow> if k' = k then Some (k, v) else e) m
      else m @ [Some (k, v)])"

text \<open>
  \<open>next_entry m i\<close>: the iterator at position \<open>i\<close> yields the first filled slot
  at or after \<open>i\<close>, with the position that follows it, or is exhausted.
\<close>

fun first_filled :: "session_map \<Rightarrow> nat \<Rightarrow> (nat \<times> string \<times> session) option" where
  "first_filled [] i = None"
| "first_filled (None # es) i = first_filled es (Suc i)"
| "first_filled (Some (k, v) # es) i = Some (Suc i, k, v)"

definition next_entry :: "session_map \<Rightarrow> nat \<Rightarrow> (nat \<times> string \<times> session) option" where
  "next_entry m i = first_filled (drop i m) i"

record monitor =
  baseUrl :: string
  activeSessions :: session_map
  isPolling :: bool
  pollInterval :: "nat option"

definition new_monitor :: monitor where
  "new_monitor =
     \<lparr>baseUrl = ''https://applaudable-unspeckled-kimberley.ngrok-free.dev'',
      activeSessions = [], isPolling = False, pollInterval = None\<rparr>"

text \<open>
  \<open>startPolling\<close>; \<open>h\<close> is the handle that \<open>setInterval\<close> returns if it is
  called.
\<close>

definition startPolling :: "monitor \<Rightarrow> nat \<Rightarrow> monitor \<times> effect list" where
  "startPolling m h =
     (if isPolling m then (m, [])
      else (m\<lparr>isPolling := True, pollInterval := Some h\<rparr>, [SetInterval h 10000]))"

definition stopPolling :: "monitor \<Rightarrow> monitor \<times> effect list" where
  "stopPolling m =
     (case pollInterval m of
        Some h \<Rightarrow> (m\<lparr>pollInterval := None, isPolling := False\<rparr>, [ClearInterval h])
      | None \<Rightarrow> (m\<lparr>isPolling := False\<rparr>, []))"

text \<open>
  \<open>startMonitoring\<close>. It awaits once, for the registration request; \<open>r\<close> is the
  settlement of that request, reduced to the \<open>session_id\<close> of the response body
  (a body without one, or no body, is \<open>None\<close>). \<open>now\<close> is \<open>Date.now()\<close>.
  The object is read and written only after the await, so the call is one step taken
  when the request settles.
\<close>

definition startMonitoring ::
  "monitor \<Rightarrow> nat \<Rightarrow> nat \<Rightarrow> string \<Rightarrow> jsnum \<Rightarrow> string \<Rightarrow> string \<Rightarrow> string
     \<Rightarrow> string option reply \<Rightarrow> (js_error + string) \<times> monitor \<times> effect list" where
  "startMonitoring m h now symbol_v threshold_v userHandle_v productUrl_v size_a r =
     (let post = AxiosPost (baseUrl m @ ''/api/monitor/start'')
                   (MonitorStart symbol_v (Number threshold_v) 10)
      in case r of
           Rejects e \<Rightarrow> (Inl e, m, [post])
         | Resolves session_id \<Rightarrow>
             if \<not> truthy session_id
             then (Inl (Error ''Failed to get session_id from monitoring API'' None), m, [post])
             else
               (let m1 = m\<lparr>activeSessions :=
                            map_set (the session_id)
                              \<lparr>userHandle = userHandle_v, productUrl = productUrl_v,
                               size_v = size_a, symbol = symbol_v, threshold = threshold_v,
                               startTime = now\<rparr>
                              (activeSessions m)\<rparr>;
                    (m2, fx) = startPolling m1 h
                in (Inr (the session_id), m2, post # fx)))"

subsection \<open>One tick of the polling loop\<close>

record status_data =
  reported_symbol :: string
  price :: jsnum
  reported_threshold :: jsnum
  is_below_threshold :: bool

text \<open>
  \<open>checkSessions\<close> is suspended at two places: at the status request of the session
  the loop is at, and inside \<open>stopSession\<close> at the stop request. A suspended tick
  holds the position of its iterator and the \<open>sessionId\<close> and \<open>data\<close> of the
  entry it is at.
\<close>

datatype tick = AwaitStatus nat string session | AwaitStop nat string | Finished

text \<open>The head of the \<open>for ... of\<close> loop with the iterator at position \<open>i\<close>.\<close>

definition loop_head :: "monitor \<Rightarrow> nat \<Rightarrow> tick \<times> effect list" where
  "loop_head m i =
     (case next_entry (activeSessions m) i of
        None \<Rightarrow> (Finished, [])
      | Some (j, sessionId, data) \<Rightarrow>
          (AwaitStatus j sessionId data, [AxiosGet (baseUrl m @ ''/api/monitor/'' @ sessionId)]))"

text \<open>The call of \<open>checkSessions\<close>, up to its first await.\<close>

definition checkSessions :: "monitor \<Rightarrow> tick \<times> effect list" where
  "checkSessions m =
     (if map_size (activeSessions m) = 0 then (Finished, []) else loop_head m 0)"

text \<open>
  The tick resumed when its status request settles, up to its next await. \<open>r\<close> is
  the settlement reduced to \<open>response.data.data\<close> (\<open>None\<close> when it is missing).
  A response without a body makes \<open>response.data.data\<close> throw a \<open>TypeError\<close>,
  which the \<open>catch\<close> handles like a rejection without \<open>error.response\<close>.
\<close>

definition after_status ::
  "monitor \<Rightarrow> nat \<Rightarrow> string \<Rightarrow> session \<Rightarrow> status_data option reply
     \<Rightarrow> monitor \<times> tick \<times> effect list" where
  "after_status m i sessionId data r =
     (case r of
        Rejects e \<Rightarrow>
          if response_status e = Some 404
          then (let m1 = m\<lparr>activeSessions := map_delete sessionId (activeSessions m)\<rparr>;
                    (t, fx) = loop_head m1 i
                in (m1, t, fx))
          else (let (t, fx) = loop_head m i in (m, t, fx))
      | Resolves None \<Rightarrow> (let (t, fx) = loop_head m i in (m, t, fx))
      | Resolves (Some sessionData) \<Rightarrow>
          if is_below_threshold sessionData
          then (m, AwaitStop i sessionId,
                [SendNotification (userHandle data)
                   (PriceAlert (symbol data) (price sessionData) (threshold data)),
                 PurchaseProduct sessionId (productUrl data) (size_v data) (userHandle data),
                 AxiosPost (baseUrl m @ ''/api/monitor/'' @ sessionId @ ''/stop'') NoBody])
          else (let (t, fx) = loop_head m i in (m, t, fx)))"

text \<open>
  The tick resumed when the stop request of \<open>stopSession\<close> settles: both branches
  delete the session, and the loop goes on.
\<close>

definition after_stop ::
  "monitor \<Rightarrow> nat \<Rightarrow> string \<Rightarrow> unit reply \<Rightarrow> monitor \<times> tick \<times> effect list" where
  "after_stop m i sessionId r =
     (let m1 = (case r of
                  Resolves u \<Rightarrow> m\<lparr>activeSessions := map_delete sessionId (activeSessions m)\<rparr>
                | Rejects e \<Rightarrow> m\<lparr>activeSessions := map_delete sessionId (activeSessions m)\<rparr>);
          (t, fx) = loop_head m1 i
      in (m1, t, fx))"

subsection \<open>The event loop\<close>

text \<open>
  The monitor runs on the JavaScript event loop: a callback runs until it awaits or
  returns, and the next one starts when a timer fires or an awaited request settles.
  The state of the whole is the monitor object, the interval timers that are active
  (\<open>setInterval\<close> hands out fresh handles), the ticks started so far, each Finished
  or suspended, and the effects so far. \<open>setInterval\<close> calls its callback at every
  period; it does not wait for the promise of the previous call.
\<close>

record system =
  mon :: monitor
  timers :: "nat list"
  next_handle :: nat
  ticks :: "tick list"
  trace :: "effect list"

definition init :: system where
  "init = \<lparr>mon = new_monitor, timers = [], next_handle = 0, ticks = [], trace = []\<rparr>"

fun perform :: "system \<Rightarrow> effect \<Rightarrow> system" where
  "perform s (SetInterval h ms) =
     s\<lparr>timers := timers s @ [h], next_handle := Suc (next_handle s),
       trace := trace s @ [SetInterval h ms]\<rparr>"
| "perform s (ClearInterval h) =
     s\<lparr>timers := removeAll h (timers s), trace := trace s @ [ClearInterval h]\<rparr>"
| "perform s e = s\<lparr>trace := trace s @ [e]\<rparr>"

definition perform_all :: "system \<Rightarrow> effect list \<Rightarrow> system" where
  "perform_all s fx = foldl perform s fx"

datatype event =
    CallStartMonitoring nat string jsnum string string string "string option reply"
  | CallStartPolling
  | CallStopPolling
  | TimerFires nat
  | StatusSettles nat "status_data option reply"
  | StopSettles nat "unit reply"

text \<open>
  One turn of the event loop. An event that cannot happen in the state (a timer that
  is not active, a settlement no tick waits for) changes nothing.
\<close>

fun step :: "system \<Rightarrow> event \<Rightarrow> system" where
  "step s (CallStartMonitoring now symbol_v threshold_v userHandle_v productUrl_v size_a r) =
     (case startMonitoring (mon s) (next_handle s) now symbol_v threshold_v userHandle_v
             productUrl_v size_a r of
        (res, m, fx) \<Rightarrow> perform_all (s\<lparr>mon := m\<rparr>) fx)"
| "step s CallStartPolling =
     (case startPolling (mon s) (next_handle s) of
        (m, fx) \<Rightarrow> perform_all (s\<lparr>mon := m\<rparr>) fx)"
| "step s CallStopPolling =
     (case stopPolling (mon s) of
        (m, fx) \<Rightarrow> perform_all (s\<lparr>mon := m\<rparr>) fx)"
| "step s (TimerFires h) =
     (if h \<in> set (timers s)
      then (case checkSessions (mon s) of
              (t, fx) \<Rightarrow> perform_all (s\<lparr>ticks := ticks s @ [t]\<rparr>) fx)
      else s)"
| "step s (StatusSettles n r) =
     (if n < length (ticks s)
      then (case ticks s ! n of
              AwaitStatus i sessionId data \<Rightarrow>
                (case after_status (mon s) i sessionId data r of
                   (m, t, fx) \<Rightarrow> perform_all (s\<lparr>mon := m, ticks := (ticks s)[n := t]\<rparr>) fx)
            | _ \<Rightarrow> s)
      else s)"
| "step s (StopSettles n r) =
     (if n < length (ticks s)
      then (case ticks s ! n of
              AwaitStop i sessionId \<Rightarrow>
                (case after_stop (mon s) i sessionId r of
                   (m, t, fx) \<Rightarrow> perform_all (s\<lparr>mon := m, ticks := (ticks s)[n := t]\<rparr>) fx)
            | _ \<Rightarrow> s)
      else s)"

definition run :: "system \<Rightarrow> event list \<Rightarrow> system" where
  "run s evs = foldl step s evs"

text \<open>The session a suspended tick is at.\<close>

fun session_of :: "tick \<Rightarrow> string option" where
  "session_of (AwaitStatus i sessionId data) = Some sessionId"
| "session_of (AwaitStop i sessionId) = Some sessionId"
| "session_of Finished = None"

text \<open>The ticks in flight, by the session each is at.\<close>

definition in_flight :: "system \<Rightarrow> string list" where
  "in_flight s = concat (map (\<lambda>t. case session_of t of None \<Rightarrow> [] | Some k \<Rightarrow> [k]) (ticks s))"

text \<open>The number of purchase dispatches for a session so far.\<close>

fun is_dispatch :: "string \<Rightarrow> effect \<Rightarrow> bool" where
  "is_dispatch k (PurchaseProduct sessionId url sz handle) = (sessionId = k)"
| "is_dispatch k e = False"

definition dispatches :: "string \<Rightarrow> system \<Rightarrow> nat" where
  "dispatches k s = length (filter (is_dispatch k) (trace s))"

section \<open>Notions used to state the properties\<close>

subsection \<open>Polling of a purchase task\<close>

text \<open>The waits and the status requests among the effects of a purchase.\<close>

fun is_request :: "effect \<Rightarrow> bool" where
  "is_request (Sleep n) = True"
| "is_request (AxiosGet u) = True"
| "is_request e = False"

text \<open>\<open>data.current_status || data.status\<close>.\<close>

definition task_status :: "task_data \<Rightarrow> string option" where
  "task_status data = or_else (current_status data) (status data)"

text \<open>
  A settlement after which the loop of \<open>pollTaskStatus\<close> goes to its next
  iteration: a rejection that the \<open>catch\<close> does not throw again, or a status that
  is not a success and whose failure, if it is one, the \<open>catch\<close> does not throw
  again.
\<close>

definition goes_on :: "task_data reply \<Rightarrow> bool" where
  "goes_on r =
     (case r of
        Rejects e \<Rightarrow> \<not> rethrown e
      | Resolves data \<Rightarrow>
          task_status data \<noteq> Some ''completed'' \<and> task_status data \<noteq> Some ''success'' \<and>
          ((task_status data = Some ''failed'' \<or> task_status data = Some ''error'') \<longrightarrow>
             \<not> rethrown (Error (the (or_else (error_message data) (Some ''Task failed''))) None)))"

text \<open>
  A settlement that reports no terminal status: a status other than the four
  terminal ones, or a failed request (whose error the \<open>catch\<close> takes for a network
  error).
\<close>

definition non_terminal :: "task_data reply \<Rightarrow> bool" where
  "non_terminal r =
     (case r of
        Rejects e \<Rightarrow> \<not> rethrown e
      | Resolves data \<Rightarrow>
          task_status data \<notin>
            set [Some ''completed'', Some ''success'', Some ''failed'', Some ''error''])"

text \<open>Sample replies of the task service and a sample outside world.\<close>

definition pending :: task_data where
  "pending = \<lparr>current_status = Some ''processing'', status = None, result_data = None,
              error_message = None\<rparr>"

definition out_of_stock :: task_data where
  "out_of_stock = \<lparr>current_status = Some ''failed'', status = None, result_data = None,
              error_message = Some ''Out of stock''\<rparr>"

definition shop_env :: "(nat \<Rightarrow> task_data reply) \<Rightarrow> purchase_env" where
  "shop_env replies =
     \<lparr>privateKeyToAccount = (\<lambda>k. Inr k),
      create_reply = Resolves \<lparr>ok = True, status_text = ''200'', body_text = [],
                               json_task_id = Resolves (Some ''t1'')\<rparr>,
      status_replies = replies\<rparr>"

subsection \<open>The price monitor\<close>

text \<open>The status requests, and the timer calls, among the effects.\<close>

fun is_get :: "effect \<Rightarrow> bool" where
  "is_get (AxiosGet u) = True"
| "is_get e = False"

fun is_timer_effect :: "effect \<Rightarrow> bool" where
  "is_timer_effect (SetInterval h ms) = True"
| "is_timer_effect (ClearInterval h) = True"
| "is_timer_effect e = False"

text \<open>
  A tick started on the monitor \<open>m\<close> checks the session in slot \<open>p\<close> again:
  \<open>checkSessions\<close> enters its loop, and from every position up to \<open>p\<close> its
  iterator goes to a registered entry at or before slot \<open>p\<close>, which at slot
  \<open>p\<close> is that session (unless it is removed in between).
\<close>

definition retried :: "monitor \<Rightarrow> nat \<Rightarrow> string \<Rightarrow> session \<Rightarrow> bool" where
  "retried m p k d =
     (map_size (activeSessions m) \<noteq> 0 \<and>
      (\<forall>i\<le>p. \<exists>j k' d'. fst (loop_head m i) = AwaitStatus j k' d' \<and> j \<le> Suc p \<and>
                 (j = Suc p \<longrightarrow> k' = k \<and> d' = d)))"

text \<open>A sample session and a monitor that watches it.\<close>

definition jacket :: session where
  "jacket = \<lparr>userHandle = ''+15551234567'', productUrl = ''https://shop.example/jacket'',
             size_v = ''Medium'', symbol = ''ETH/USD'', threshold = Finite 2500, startTime = 0\<rparr>"

definition watching :: monitor where
  "watching = new_monitor\<lparr>activeSessions := [Some (''s1'', jacket)], isPolling := True,
                           pollInterval := Some 0\<rparr>"

subsection \<open>Progress of a purchase task\<close>













subsection \<open>Runs of the event loop\<close>

text \<open>The sessions registered in a state, and the ticks that are suspended in it.\<close>

definition live :: "system \<Rightarrow> string \<Rightarrow> bool" where
  "live s k = map_has (activeSessions (mon s)) k"

definition flight :: "system \<Rightarrow> tick list" where
  "flight s = filter (\<lambda>t. t \<noteq> Finished) (ticks s)"


text \<open>
  A run in which ticks do not overlap: whenever the timer fires, every tick started
  before has finished (its requests settled within the poll interval).
\<close>

fun fires :: "event \<Rightarrow> bool" where
  "fires (TimerFires h) = True"
| "fires e = False"

fun sequential :: "system \<Rightarrow> event list \<Rightarrow> bool" where
  "sequential s [] = True"
| "sequential s (e # es) = ((fires e \<longrightarrow> in_flight s = []) \<and> sequential (step s e) es)"

text \<open>
  The session identifier that PriceFeed hands out in a registration, and the
  assumption of the data model that it never hands out the same one twice.
\<close>

fun issued :: "event \<Rightarrow> string list" where
  "issued (CallStartMonitoring now sy th handle url sz (Resolves (Some k))) =
     (if k = [] then [] else [k])"
| "issued e = []"

definition fresh_ids :: "event list \<Rightarrow> bool" where
  "fresh_ids evs = distinct (concat (map issued evs))"

text \<open>
  The invariant of the runs without overlap, over the suspended ticks \<open>F\<close>, the
  number of dispatches \<open>D\<close> of each session and the registered sessions \<open>L\<close>:
  at most one tick is suspended; no session was dispatched twice; only sessions that
  PriceFeed issued are registered or dispatched; a registered session that was
  dispatched is the one whose stop request the suspended tick awaits; and the session
  whose status the suspended tick awaits was not dispatched.
\<close>

definition tidy_of ::
  "string list \<Rightarrow> tick list \<Rightarrow> (string \<Rightarrow> nat) \<Rightarrow> (string \<Rightarrow> bool) \<Rightarrow> bool" where
  "tidy_of ids F D L =
     (length F \<le> 1 \<and>
      (\<forall>k. D k \<le> 1) \<and>
      (\<forall>k. 0 < D k \<longrightarrow> k \<in> set ids) \<and>
      (\<forall>k. L k \<longrightarrow> k \<in> set ids) \<and>
      (\<forall>k. L k \<and> 0 < D k \<longrightarrow> (\<exists>i. F = [AwaitStop i k])) \<and>
      (\<forall>i k d. F = [AwaitStatus i k d] \<longrightarrow> D k = 0 \<and> k \<in> set ids))"

definition tidy :: "string list \<Rightarrow> system \<Rightarrow> bool" where
  "tidy ids s = tidy_of ids (flight s) (\<lambda>k. dispatches k s) (live s)"

text \<open>
  Sample events: the registration of the sample session, a status below the
  threshold, a stop request that fails, and three runs.
\<close>

definition register_jacket :: event where
  "register_jacket = CallStartMonitoring 0 ''ETH/USD'' (Finite 2500) ''+15551234567''
                       ''https://shop.example/jacket'' ''Medium'' (Resolves (Some ''s1''))"

definition cheap :: status_data where
  "cheap = \<lparr>reported_symbol = ''ETH/USD'', price = Finite 2400,
            reported_threshold = Finite 2500, is_below_threshold = True\<rparr>"

definition below :: "status_data option reply" where
  "below = Resolves (Some cheap)"

definition stop_fails :: "unit reply" where
  "stop_fails = Rejects (Error ''Network Error'' None)"

definition overlapping_run :: "event list" where
  "overlapping_run =
     [register_jacket, TimerFires 0, TimerFires 0, StatusSettles 0 below, StatusSettles 1 below]"

definition orderly_run :: "event list" where
  "orderly_run =
     [register_jacket, TimerFires 0, StatusSettles 0 below, StopSettles 0 stop_fails,
      TimerFires 0, StatusSettles 1 below]"

definition retry_run :: "event list" where
  "retry_run = [register_jacket, TimerFires 0, StatusSettles 0 (Resolves None), TimerFires 0]"

section \<open>Properties of the purchase polling\<close>

lemma filter_concat_map_empty:
  "(\<And>x. filter P (f x) = []) \<Longrightarrow> filter P (concat (map f xs)) = []"
  by (induction xs) simp_all

lemma requests_surface_step: "filter is_request (surface_step h st) = []"
  by (simp add: surface_step_def sendUpdate_def Let_def)

lemma requests_handle_progress: "filter is_request (snd (handle_progress h c d)) = []"
  by (simp add: handle_progress_def requests_surface_step filter_concat_map_empty
      split: option.splits)

lemma fst_emit: "fst (emit fx r) = fst r"
  by (simp add: emit_def)

lemma snd_emit: "snd (emit fx r) = fx @ snd r"
  by (simp add: emit_def)

lemma pollLoop_goes_on:
  "(\<And>j. i \<le> j \<Longrightarrow> j < maxAttempts \<Longrightarrow> goes_on (env j)) \<Longrightarrow>
   fst (pollLoop h u env i c) = Inl (Error ''Task timed out'' None) \<and>
   filter is_request (snd (pollLoop h u env i c)) =
     concat (replicate (maxAttempts - i) [Sleep 1000, AxiosGet u])"
proof (induction "maxAttempts - i" arbitrary: i c)
  case 0
  then show ?case by (simp add: pollLoop.simps)
next
  case (Suc n)
  then have lt: "i < maxAttempts" and n: "n = maxAttempts - (i + 1)" by simp_all
  have go: "goes_on (env i)" using Suc.prems lt by simp
  have rest: "\<And>j. i + 1 \<le> j \<Longrightarrow> j < maxAttempts \<Longrightarrow> goes_on (env j)"
    using Suc.prems by simp
  have IH: "\<And>c'. fst (pollLoop h u env (i + 1) c') = Inl (Error ''Task timed out'' None) \<and>
     filter is_request (snd (pollLoop h u env (i + 1) c')) =
       concat (replicate n [Sleep 1000, AxiosGet u])"
    using Suc.hyps(1)[OF n rest] n by simp
  have rep: "maxAttempts - i = Suc n" using Suc.hyps(2) by simp
  show ?case
  proof (cases "env i")
    case (Rejects e)
    then have nr: "\<not> rethrown e" using go by (simp add: goes_on_def)
    show ?thesis
      using lt Rejects nr rep IH[of c]
      by (simp add: pollLoop.simps[of h u env i c] fst_emit snd_emit)
  next
    case (Resolves data)
    obtain count fx where hp: "handle_progress h c data = (count, fx)"
      by (cases "handle_progress h c data")
    have fxr: "filter is_request fx = []"
      using requests_handle_progress[of h c data] hp by simp
    from go Resolves have g: "task_status data \<noteq> Some ''completed''"
      "task_status data \<noteq> Some ''success''"
      "task_status data = Some ''failed'' \<or> task_status data = Some ''error'' \<Longrightarrow>
         \<not> rethrown (Error (the (or_else (error_message data) (Some ''Task failed''))) None)"
      by (simp_all add: goes_on_def)
    show ?thesis
      using lt Resolves rep IH[of count] hp fxr g
      by (simp add: pollLoop.simps[of h u env i c] fst_emit snd_emit task_status_def Let_def)
  qed
qed

lemma non_terminal_goes_on: "non_terminal r \<Longrightarrow> goes_on r"
  by (auto simp: non_terminal_def goes_on_def split: reply.splits)

lemma requests_purchase_failed: "filter is_request (snd (purchase_failed h e)) = []"
  by (simp add: purchase_failed_def sendUpdate_def)

lemma purchaseProduct_polls:
  assumes "getAccount (privateKeyToAccount env) a = Inr account"
    and "create_reply env = Resolves response" and "ok response"
    and "json_task_id response = Resolves taskId" and "truthy taskId"
  shows "fst (purchaseProduct a env url sz handle) =
           fst (pollTaskStatus a (status_replies env) (the taskId) handle) \<and>
         filter is_request (snd (purchaseProduct a env url sz handle)) =
           filter is_request (snd (pollTaskStatus a (status_replies env) (the taskId) handle))"
proof (cases "pollTaskStatus a (status_replies env) (the taskId) handle")
  case (Pair res fx)
  show ?thesis
  proof (cases res)
    case (Inl e)
    with Pair assms show ?thesis
      by (simp add: purchaseProduct_def fst_emit snd_emit sendUpdate_def
          requests_purchase_failed purchase_failed_def)
  next
    case (Inr r)
    with Pair assms show ?thesis
      by (simp add: purchaseProduct_def fst_emit snd_emit sendUpdate_def)
  qed
qed

text \<open>
  Claim C6. If no status request of a purchase ever reports a terminal status
  (each of the 120 settlements is a non-terminal status or a failed request), then
  \<open>pollTaskStatus\<close> waits one second and sends one status request exactly 120
  times, and throws \<open>Task timed out\<close>; \<open>purchaseProduct\<close>, once the task is
  created, makes exactly these requests and fails with that error.
\<close>

theorem poll_times_out_after_max_attempts:
  assumes "\<forall>i<maxAttempts. non_terminal (status_replies env i)"
    and "getAccount (privateKeyToAccount env) a = Inr account"
    and "create_reply env = Resolves response" and "ok response"
    and "json_task_id response = Resolves taskId" and "truthy taskId"
  shows "fst (pollTaskStatus a (status_replies env) (the taskId) handle) =
           Inl (Error ''Task timed out'' None) \<and>
         filter is_request (snd (pollTaskStatus a (status_replies env) (the taskId) handle)) =
           concat (replicate 120 [Sleep 1000, AxiosGet (statusUrl a (the taskId))]) \<and>
         fst (purchaseProduct a env url sz handle) =
           Inl (Error ''Task timed out'' None) \<and>
         filter is_request (snd (purchaseProduct a env url sz handle)) =
           concat (replicate 120 [Sleep 1000, AxiosGet (statusUrl a (the taskId))])"
proof -
  have go: "\<And>j. 0 \<le> j \<Longrightarrow> j < maxAttempts \<Longrightarrow> goes_on (status_replies env j)"
    using assms(1) by (simp add: non_terminal_goes_on)
  have poll: "fst (pollTaskStatus a (status_replies env) (the taskId) handle) =
           Inl (Error ''Task timed out'' None) \<and>
         filter is_request (snd (pollTaskStatus a (status_replies env) (the taskId) handle)) =
           concat (replicate 120 [Sleep 1000, AxiosGet (statusUrl a (the taskId))])"
    using pollLoop_goes_on[OF go, where h = handle and u = "statusUrl a (the taskId)" and c = 0]
    by (simp add: pollTaskStatus_def maxAttempts_def)
  show ?thesis
    using poll purchaseProduct_polls[OF assms(2-6), where url = url and sz = sz and handle = handle]
    by simp
qed

theorem poll_times_out_after_max_attempts_witness:
  "getAccount (privateKeyToAccount (shop_env (\<lambda>i. Resolves pending))) (new_agent (Some ''0xabc'')) = Inr ''0xabc'' \<and>
   fst (purchaseProduct (new_agent (Some ''0xabc'')) (shop_env (\<lambda>i. Resolves pending))
          ''https://shop.example/jacket'' ''Medium'' (Some ''+15551234567'')) =
     Inl (Error ''Task timed out'' None) \<and>
   filter is_request (snd (purchaseProduct (new_agent (Some ''0xabc'')) (shop_env (\<lambda>i. Resolves pending))
          ''https://shop.example/jacket'' ''Medium'' (Some ''+15551234567''))) =
     concat (replicate 120 [Sleep 1000,
       AxiosGet ''https://undecorously-uncongestive-cindy.ngrok-free.dev/tasks/t1''])"
proof -
  have h1: "\<forall>i<maxAttempts. non_terminal (status_replies (shop_env (\<lambda>i. Resolves pending)) i)"
    by (simp add: shop_env_def non_terminal_def pending_def task_status_def or_else_def truthy_def)
  have h2: "getAccount (privateKeyToAccount (shop_env (\<lambda>i. Resolves pending))) (new_agent (Some ''0xabc'')) = Inr ''0xabc''"
    by (simp add: shop_env_def getAccount_def new_agent_def truthy_def)
  have h3: "create_reply (shop_env (\<lambda>i. Resolves pending)) = Resolves \<lparr>ok = True, status_text = ''200'', body_text = [],
                               json_task_id = Resolves (Some ''t1'')\<rparr>"
    by (simp add: shop_env_def)
  have u: "statusUrl (new_agent (Some ''0xabc'')) ''t1'' = ''https://undecorously-uncongestive-cindy.ngrok-free.dev/tasks/t1''"
    by (simp add: statusUrl_def new_agent_def)
  show ?thesis
    using h2 poll_times_out_after_max_attempts[OF h1 h2 h3, where taskId = "Some ''t1''" and url = "''https://shop.example/jacket''"
        and sz = "''Medium''" and handle = "Some ''+15551234567''"] u
    by (simp add: truthy_def)
qed

text \<open>
  Claim C2, at the input where the code departs from it. Every status request
  reports the status \<open>failed\<close> with the error message \<open>Out of stock\<close>. The
  error thrown for it does not contain \<open>Task failed\<close>, so the \<open>catch\<close> of the
  loop takes it for a network error: polling goes on for all 120 attempts and the
  purchase fails with \<open>Task timed out\<close>, not with the message of the task.
\<close>

theorem failed_status_with_message_keeps_polling:
  "fst (pollTaskStatus a (\<lambda>i. Resolves out_of_stock) taskId handle) =
     Inl (Error ''Task timed out'' None) \<and>
   filter is_request (snd (pollTaskStatus a (\<lambda>i. Resolves out_of_stock) taskId handle)) =
     concat (replicate 120 [Sleep 1000, AxiosGet (statusUrl a taskId)]) \<and>
   fst (purchaseProduct (new_agent (Some ''0xabc'')) (shop_env (\<lambda>i. Resolves out_of_stock))
          url sz handle) = Inl (Error ''Task timed out'' None)"
proof -
  have nr: "\<not> rethrown (Error ''Out of stock'' None)"
    by (simp add: rethrown_def)
  have go: "\<And>j. 0 \<le> j \<Longrightarrow> j < maxAttempts \<Longrightarrow> goes_on (Resolves out_of_stock)"
    using nr by (simp add: goes_on_def out_of_stock_def task_status_def or_else_def truthy_def)
  have poll: "\<And>a taskId . fst (pollTaskStatus a (\<lambda>i. Resolves out_of_stock) taskId handle) =
     Inl (Error ''Task timed out'' None) \<and>
   filter is_request (snd (pollTaskStatus a (\<lambda>i. Resolves out_of_stock) taskId handle)) =
     concat (replicate 120 [Sleep 1000, AxiosGet (statusUrl a taskId)])"
    using pollLoop_goes_on[where i = 0 and env = "\<lambda>i. Resolves out_of_stock", OF go]
    by (simp add: pollTaskStatus_def maxAttempts_def)
  have p: "fst (purchaseProduct (new_agent (Some ''0xabc'')) (shop_env (\<lambda>i. Resolves out_of_stock))
          url sz handle) =
        fst (pollTaskStatus (new_agent (Some ''0xabc'')) (\<lambda>i. Resolves out_of_stock) ''t1'' handle)"
    using purchaseProduct_polls[where env = "shop_env (\<lambda>i. Resolves out_of_stock)"
        and a = "new_agent (Some ''0xabc'')" and account = "''0xabc''"
        and response = "\<lparr>ok = True, status_text = ''200'', body_text = [],
                               json_task_id = Resolves (Some ''t1'')\<rparr>"
        and taskId = "Some ''t1''" and url = url and sz = sz and handle = handle]
    by (simp add: shop_env_def getAccount_def new_agent_def truthy_def)
  show ?thesis using poll p by simp
qed

subsection \<open>Progress steps\<close>



































section \<open>Properties of the price monitor\<close>

subsection \<open>One session in one tick, and registration\<close>

lemma loop_head_gets: "filter (\<lambda>x. \<not> is_get x) (snd (loop_head m i)) = []"
  by (simp add: loop_head_def split: option.splits)

lemma map_has_delete: "\<not> map_has (map_delete k m) k"
  by (induction m) (auto simp: map_has_def map_delete_def map_keys_def split: option.splits)

lemma perform_all_no_timer:
  "filter is_timer_effect fx = [] \<Longrightarrow>
   perform_all s fx = s\<lparr>trace := trace s @ fx\<rparr>"
proof (induction fx arbitrary: s)
  case Nil
  then show ?case by (simp add: perform_all_def)
next
  case (Cons e fx)
  then have e: "\<not> is_timer_effect e" and fx: "filter is_timer_effect fx = []"
    by (auto split: if_splits)
  have "perform s e = s\<lparr>trace := trace s @ [e]\<rparr>" using e by (cases e) simp_all
  then show ?case using Cons.IH[OF fx, of "perform s e"] by (simp add: perform_all_def)
qed

lemma first_filled_no_skip:
  "q < length es \<Longrightarrow> es ! q = Some (k, d) \<Longrightarrow>
   \<exists>j k' d'. first_filled es i = Some (j, k', d') \<and> j \<le> Suc (i + q) \<and>
     (j = Suc (i + q) \<longrightarrow> k' = k \<and> d' = d)"
proof (induction es i arbitrary: q rule: first_filled.induct)
  case (1 i)
  then show ?case by simp
next
  case (2 es i)
  then obtain q' where q: "q = Suc q'" by (cases q) auto
  with 2 show ?case by auto
next
  case (3 k0 v0 es i)
  then show ?case by (cases q) auto
qed

lemma loop_head_no_skip:
  assumes "p < length (activeSessions m)" and "activeSessions m ! p = Some (k, d)" and "i \<le> p"
  shows "\<exists>j k' d'. loop_head m i =
           (AwaitStatus j k' d', [AxiosGet (baseUrl m @ ''/api/monitor/'' @ k')]) \<and>
         j \<le> Suc p \<and> (j = Suc p \<longrightarrow> k' = k \<and> d' = d)"
proof -
  have "p - i < length (drop i (activeSessions m))" "drop i (activeSessions m) ! (p - i) = Some (k, d)"
    using assms by simp_all
  from first_filled_no_skip[OF this, of i] assms(3)
  show ?thesis by (auto simp: loop_head_def next_entry_def)
qed

lemma registered_is_retried:
  assumes "p < length (activeSessions m)" and "activeSessions m ! p = Some (k, d)"
  shows "retried m p k d"
proof -
  have "Some (k, d) \<in> set (activeSessions m)" using assms by (metis nth_mem)
  then have "filter (\<lambda>e. e \<noteq> None) (activeSessions m) \<noteq> []"
    by (auto simp: filter_empty_conv)
  then have "map_size (activeSessions m) \<noteq> 0" by (simp add: map_size_def)
  moreover have "\<exists>j k' d'. fst (loop_head m i) = AwaitStatus j k' d' \<and> j \<le> Suc p \<and>
                 (j = Suc p \<longrightarrow> k' = k \<and> d' = d)" if "i \<le> p" for i
    using loop_head_no_skip[OF assms that] by auto
  ultimately show ?thesis by (simp add: retried_def)
qed

text \<open>
  Claim C10. When the status request of a session succeeds and the response body has
  no \<open>data\<close> object, the tick leaves the monitor as it is (the session stays
  registered, nothing is removed) and goes to the next session: it sends no
  notification, dispatches no purchase and sends no stop request; the only effect, if
  any, is the status request of the next session. The session, still registered, is
  checked again by the next tick.
\<close>

theorem missing_data_skips_session:
  "after_status m i sessionId data (Resolves None) = (m, loop_head m i) \<and>
   filter (\<lambda>x. \<not> is_get x) (snd (snd (after_status m i sessionId data (Resolves None)))) = [] \<and>
   (p < length (activeSessions m) \<and> activeSessions m ! p = Some (sessionId, data) \<longrightarrow>
      retried (fst (after_status m i sessionId data (Resolves None))) p sessionId data)"
  using registered_is_retried[of p m sessionId data]
  by (simp add: after_status_def loop_head_gets split: prod.splits)

theorem missing_data_skips_session_witness:
  "after_status watching 1 ''s1'' jacket (Resolves None) = (watching, Finished, []) \<and>
   retried watching 0 ''s1'' jacket"
proof -
  have a: "after_status watching 1 ''s1'' jacket (Resolves None) = (watching, Finished, [])"
    by (simp add: after_status_def loop_head_def next_entry_def watching_def new_monitor_def)
  have h: "0 < length (activeSessions watching) \<and>
           activeSessions watching ! 0 = Some (''s1'', jacket)"
    by (simp add: watching_def)
  from missing_data_skips_session[of watching 1 "''s1''" jacket 0] h
  have "retried (fst (after_status watching 1 ''s1'' jacket (Resolves None))) 0 ''s1'' jacket"
    by blast
  then show ?thesis using a by simp
qed

text \<open>
  Claim C8. When the status request of a session fails with HTTP status 404, the
  session is removed from \<open>activeSessions\<close> and the tick goes to the next session
  without a notification or a purchase. When it fails in any other way, the monitor is
  unchanged, so the session is still registered and is checked again by the next tick.
\<close>

theorem stale_session_removed_silently:
  "(response_status e = Some 404 \<longrightarrow>
      activeSessions (fst (after_status m i sessionId data (Rejects e))) =
        map_delete sessionId (activeSessions m) \<and>
      \<not> map_has (activeSessions (fst (after_status m i sessionId data (Rejects e)))) sessionId \<and>
      filter (\<lambda>x. \<not> is_get x) (snd (snd (after_status m i sessionId data (Rejects e)))) = []) \<and>
   (response_status e \<noteq> Some 404 \<longrightarrow>
      after_status m i sessionId data (Rejects e) = (m, loop_head m i) \<and>
      filter (\<lambda>x. \<not> is_get x) (snd (snd (after_status m i sessionId data (Rejects e)))) = [] \<and>
      (p < length (activeSessions m) \<and> activeSessions m ! p = Some (sessionId, data) \<longrightarrow>
         retried (fst (after_status m i sessionId data (Rejects e))) p sessionId data))"
  using registered_is_retried[of p m sessionId data]
  by (simp add: after_status_def loop_head_gets map_has_delete Let_def split: prod.splits)

theorem stale_session_removed_silently_witness:
  "\<not> map_has (activeSessions (fst (after_status watching 1 ''s1'' jacket
       (Rejects (Error ''Request failed with status code 404'' (Some 404)))))) ''s1'' \<and>
   snd (after_status watching 1 ''s1'' jacket
       (Rejects (Error ''Request failed with status code 404'' (Some 404)))) = (Finished, []) \<and>
   after_status watching 1 ''s1'' jacket (Rejects (Error ''Network Error'' None)) =
     (watching, Finished, []) \<and>
   map_has (activeSessions watching) ''s1'' \<and>
   retried watching 0 ''s1'' jacket"
proof -
  have a: "snd (after_status watching 1 ''s1'' jacket
       (Rejects (Error ''Request failed with status code 404'' (Some 404)))) = (Finished, [])"
    "after_status watching 1 ''s1'' jacket (Rejects (Error ''Network Error'' None)) =
       (watching, Finished, [])"
    "map_has (activeSessions watching) ''s1''"
    by (simp_all add: after_status_def loop_head_def next_entry_def watching_def new_monitor_def
        map_has_def map_keys_def map_delete_def)
  have h: "0 < length (activeSessions watching) \<and>
           activeSessions watching ! 0 = Some (''s1'', jacket)"
    by (simp add: watching_def)
  have s1: "response_status (Error ''Request failed with status code 404'' (Some 404)) = Some 404"
    and s2: "response_status (Error ''Network Error'' None) \<noteq> Some 404"
    by simp_all
  from stale_session_removed_silently[of "Error ''Request failed with status code 404'' (Some 404)" watching 1 "''s1''" jacket 0] s1
  have g: "\<not> map_has (activeSessions (fst (after_status watching 1 ''s1'' jacket
       (Rejects (Error ''Request failed with status code 404'' (Some 404)))))) ''s1''"
    by blast
  from stale_session_removed_silently[of "Error ''Network Error'' None" watching 1 "''s1''" jacket 0] h s2
  have "retried (fst (after_status watching 1 ''s1'' jacket (Rejects (Error ''Network Error'' None))))
          0 ''s1'' jacket"
    by blast
  then show ?thesis using a g by simp
qed

lemma perform_all_no_timer_fields:
  assumes "filter is_timer_effect fx = []"
  shows "mon (perform_all s fx) = mon s" "timers (perform_all s fx) = timers s"
    "ticks (perform_all s fx) = ticks s" "next_handle (perform_all s fx) = next_handle s"
    "trace (perform_all s fx) = trace s @ fx"
  using perform_all_no_timer[OF assms, of s] by simp_all

text \<open>
  Claim C5. If the registration request fails, or its response has no session
  identifier, \<open>startMonitoring\<close> throws and leaves the monitor as it was: its only
  effect is the registration request, no session is stored, the polling flag and the
  timer are untouched and no tick is started.
\<close>

theorem failed_registration_changes_nothing:
  assumes "r = Rejects e \<or> (r = Resolves session_id \<and> \<not> truthy session_id)"
  shows "(\<exists>err. fst (startMonitoring m h now sy th handle url sz r) = Inl err) \<and>
         snd (startMonitoring m h now sy th handle url sz r) =
           (m, [AxiosPost (baseUrl m @ ''/api/monitor/start'') (MonitorStart sy (Number th) 10)]) \<and>
         mon (step s (CallStartMonitoring now sy th handle url sz r)) = mon s \<and>
         timers (step s (CallStartMonitoring now sy th handle url sz r)) = timers s \<and>
         ticks (step s (CallStartMonitoring now sy th handle url sz r)) = ticks s"
proof -
  have a: "\<And>m h. (\<exists>err. fst (startMonitoring m h now sy th handle url sz r) = Inl err) \<and>
         snd (startMonitoring m h now sy th handle url sz r) =
           (m, [AxiosPost (baseUrl m @ ''/api/monitor/start'') (MonitorStart sy (Number th) 10)])"
    using assms by (auto simp: startMonitoring_def Let_def)
  obtain res where sm: "startMonitoring (mon s) (next_handle s) now sy th handle url sz r =
      (res, mon s, [AxiosPost (baseUrl (mon s) @ ''/api/monitor/start'') (MonitorStart sy (Number th) 10)])"
    using a[of "mon s" "next_handle s"]
    by (cases "startMonitoring (mon s) (next_handle s) now sy th handle url sz r") auto
  have b: "mon (step s (CallStartMonitoring now sy th handle url sz r)) = mon s \<and>
         timers (step s (CallStartMonitoring now sy th handle url sz r)) = timers s \<and>
         ticks (step s (CallStartMonitoring now sy th handle url sz r)) = ticks s"
    using sm by (simp add: perform_all_no_timer_fields)
  show ?thesis using a[of m h] b by simp
qed

theorem failed_registration_changes_nothing_witness:
  "startMonitoring new_monitor 0 0 ''ETH/USD'' (Finite 2500) ''+15551234567''
      ''https://shop.example/jacket'' ''Medium'' (Rejects (Error ''Network Error'' None)) =
     (Inl (Error ''Network Error'' None), new_monitor,
      [AxiosPost ''https://applaudable-unspeckled-kimberley.ngrok-free.dev/api/monitor/start''
         (MonitorStart ''ETH/USD'' (Finite 2500) 10)]) \<and>
   startMonitoring new_monitor 0 0 ''ETH/USD'' (Finite 2500) ''+15551234567''
      ''https://shop.example/jacket'' ''Medium'' (Resolves None) =
     (Inl (Error ''Failed to get session_id from monitoring API'' None), new_monitor,
      [AxiosPost ''https://applaudable-unspeckled-kimberley.ngrok-free.dev/api/monitor/start''
         (MonitorStart ''ETH/USD'' (Finite 2500) 10)]) \<and>
   mon (step init (CallStartMonitoring 0 ''ETH/USD'' (Finite 2500) ''+15551234567''
      ''https://shop.example/jacket'' ''Medium'' (Resolves None))) = new_monitor \<and>
   timers (step init (CallStartMonitoring 0 ''ETH/USD'' (Finite 2500) ''+15551234567''
      ''https://shop.example/jacket'' ''Medium'' (Resolves None))) = []"
  using failed_registration_changes_nothing[where r = "Rejects (Error ''Network Error'' None)" and e = "Error ''Network Error'' None"
      and m = new_monitor and h = 0 and now = 0 and sy = "''ETH/USD''" and th = "Finite 2500"
      and handle = "''+15551234567''" and url = "''https://shop.example/jacket''" and sz = "''Medium''"
      and s = init]
    failed_registration_changes_nothing[where r = "Resolves None" and session_id = None
      and m = new_monitor and h = 0 and now = 0 and sy = "''ETH/USD''" and th = "Finite 2500"
      and handle = "''+15551234567''" and url = "''https://shop.example/jacket''" and sz = "''Medium''"
      and s = init]
  by (simp add: truthy_def startMonitoring_def new_monitor_def Number_def init_def)

text \<open>
  Claim C3 fails: \<open>startMonitoring\<close> does not look at the threshold. Called with
  \<open>NaN\<close>, it sends the registration request and, PriceFeed answering with a session
  identifier, stores the session and starts the polling.
\<close>

theorem nan_threshold_is_registered:
  "startMonitoring new_monitor 0 0 ''ETH/USD'' NaN ''+15551234567''
      ''https://shop.example/jacket'' ''Medium'' (Resolves (Some ''s1'')) =
     (Inr ''s1'',
      new_monitor\<lparr>activeSessions := [Some (''s1'', jacket\<lparr>threshold := NaN\<rparr>)],
                   isPolling := True, pollInterval := Some 0\<rparr>,
      [AxiosPost ''https://applaudable-unspeckled-kimberley.ngrok-free.dev/api/monitor/start''
         (MonitorStart ''ETH/USD'' NaN 10),
       SetInterval 0 10000])"
  by (simp add: startMonitoring_def new_monitor_def Number_def truthy_def map_set_def map_has_def
      map_keys_def startPolling_def jacket_def)

lemma map_keys_Nil: "map_keys [] = []"
  by (simp add: map_keys_def)

lemma map_keys_Cons:
  "map_keys (e # m) = (case e of None \<Rightarrow> [] | Some (k, v) \<Rightarrow> [k]) @ map_keys m"
  by (simp add: map_keys_def)

lemma map_keys_append: "map_keys (m @ m') = map_keys m @ map_keys m'"
  by (simp add: map_keys_def)

lemma map_keys_overwrite:
  "map_keys (map (\<lambda>e. case e of None \<Rightarrow> None
                          | Some (k', v') \<Rightarrow> if k' = k then Some (k, v) else e) m) = map_keys m"
  by (induction m) (auto simp: map_keys_Nil map_keys_Cons split: option.splits)

lemma map_keys_set:
  "map_keys (map_set k v m) = (if k \<in> set (map_keys m) then map_keys m else map_keys m @ [k])"
  by (simp add: map_set_def map_has_def map_keys_overwrite map_keys_append)
    (simp add: map_keys_def)

lemma map_keys_delete: "map_keys (map_delete k m) = removeAll k (map_keys m)"
  by (induction m) (auto simp: map_keys_Nil map_keys_Cons map_delete_def split: option.splits)

lemma map_has_set: "map_has (map_set k v m) k"
  by (simp add: map_has_def map_keys_set)

text \<open>
  Claim C3 as amended. Whatever the threshold, finite or not, the first thing
  \<open>startMonitoring\<close> does is to send the registration request carrying it, and
  when PriceFeed answers with a session identifier the session is stored with that
  threshold and the identifier is returned.
\<close>

theorem registration_sent_for_any_threshold:
  "hd (snd (snd (startMonitoring m h now sy th handle url sz r))) =
     AxiosPost (baseUrl m @ ''/api/monitor/start'') (MonitorStart sy th 10) \<and>
   (truthy session_id \<longrightarrow>
      fst (startMonitoring m h now sy th handle url sz (Resolves session_id)) = Inr (the session_id) \<and>
      activeSessions (fst (snd (startMonitoring m h now sy th handle url sz (Resolves session_id)))) =
        map_set (the session_id)
          \<lparr>userHandle = handle, productUrl = url, size_v = sz, symbol = sy, threshold = th,
           startTime = now\<rparr> (activeSessions m))"
  by (simp add: startMonitoring_def Let_def Number_def startPolling_def split: reply.splits)

theorem registration_sent_for_any_threshold_witness:
  "fst (startMonitoring new_monitor 0 0 ''ETH/USD'' PosInfinity ''+15551234567''
      ''https://shop.example/jacket'' ''Medium'' (Resolves (Some ''s1''))) = Inr ''s1'' \<and>
   activeSessions (fst (snd (startMonitoring new_monitor 0 0 ''ETH/USD'' PosInfinity ''+15551234567''
      ''https://shop.example/jacket'' ''Medium'' (Resolves (Some ''s1''))))) =
     [Some (''s1'', jacket\<lparr>threshold := PosInfinity\<rparr>)]"
  using registration_sent_for_any_threshold[where session_id = "Some ''s1''" and m = new_monitor and h = 0 and now = 0
      and sy = "''ETH/USD''" and th = PosInfinity and handle = "''+15551234567''"
      and url = "''https://shop.example/jacket''" and sz = "''Medium''"]
  by (simp add: truthy_def new_monitor_def map_set_def map_has_def map_keys_def jacket_def)

subsection \<open>The timer of the polling loop\<close>

lemma perform_fields:
  "mon (perform s e) = mon s" "ticks (perform s e) = ticks s"
  "trace (perform s e) = trace s @ [e]"
  by (cases e; simp)+

lemma perform_all_fields:
  "mon (perform_all s fx) = mon s" "ticks (perform_all s fx) = ticks s"
  "trace (perform_all s fx) = trace s @ fx"
  by (induction fx arbitrary: s; simp add: perform_all_def perform_fields)+


lemma polling_of_loop_head_state:
  "isPolling (m\<lparr>activeSessions := x\<rparr>) = isPolling m"
  "pollInterval (m\<lparr>activeSessions := x\<rparr>) = pollInterval m"
  by simp_all






lemma startMonitoring_cases:
  obtains (failed) err where
      "startMonitoring m h now sy th handle url sz r =
         (Inl err, m, [AxiosPost (baseUrl m @ ''/api/monitor/start'') (MonitorStart sy (Number th) 10)])"
      "r = Rejects err \<or> (\<exists>sid. r = Resolves sid \<and> \<not> truthy sid)"
  | (stored) k where "r = Resolves (Some k)" "k \<noteq> []"
      "startMonitoring m h now sy th handle url sz r =
         (Inr k,
          fst (startPolling (m\<lparr>activeSessions := map_set k
                 \<lparr>userHandle = handle, productUrl = url, size_v = sz, symbol = sy,
                  threshold = th, startTime = now\<rparr> (activeSessions m)\<rparr>) h),
          AxiosPost (baseUrl m @ ''/api/monitor/start'') (MonitorStart sy (Number th) 10) #
          snd (startPolling (m\<lparr>activeSessions := map_set k
                 \<lparr>userHandle = handle, productUrl = url, size_v = sz, symbol = sy,
                  threshold = th, startTime = now\<rparr> (activeSessions m)\<rparr>) h))"
proof (cases r)
  case (Rejects e)
  then show ?thesis using failed[of e] by (simp add: startMonitoring_def)
next
  case (Resolves sid)
  show ?thesis
  proof (cases "truthy sid")
    case False
    then show ?thesis
      using Resolves failed[of "Error ''Failed to get session_id from monitoring API'' None"]
      by (simp add: startMonitoring_def)
  next
    case True
    then obtain k where k: "sid = Some k" "k \<noteq> []"
      by (auto simp: truthy_def split: option.splits)
    show ?thesis
      using Resolves k True stored[of k]
      by (simp add: startMonitoring_def Let_def split: prod.splits)
  qed
qed



lemma run_snoc: "run s (evs @ [e]) = step (run s evs) e"
  by (simp add: run_def)



lemma first_filled_position:
  "first_filled es i = Some (j, k, v) \<Longrightarrow>
   i < j \<and> j \<le> i + length es \<and> es ! (j - 1 - i) = Some (k, v)"
proof (induction es i rule: first_filled.induct)
  case (1 i)
  then show ?case by simp
next
  case (2 es i)
  then have "Suc i < j \<and> j \<le> Suc i + length es \<and> es ! (j - 1 - Suc i) = Some (k, v)" by simp
  moreover from this have "j - 1 - i = Suc (j - 1 - Suc i)" by arith
  ultimately show ?case by simp
next
  case (3 k' v' es i)
  then show ?case by simp
qed

lemma loop_head_position:
  assumes "loop_head m i = (AwaitStatus j k d, fx)"
  shows "i < j \<and> j \<le> length (activeSessions m) \<and> activeSessions m ! (j - 1) = Some (k, d)"
proof -
  from assms have ff: "first_filled (drop i (activeSessions m)) i = Some (j, k, d)"
    by (auto simp: loop_head_def next_entry_def split: option.splits)
  from first_filled_position[OF ff]
  have a: "i < j" "j \<le> i + length (drop i (activeSessions m))"
    "drop i (activeSessions m) ! (j - 1 - i) = Some (k, d)" by simp_all
  from a(1,2) have le: "j \<le> length (activeSessions m)" by simp
  with a show ?thesis by simp
qed




subsection \<open>Ticks that overlap, and the dispatch of purchases\<close>

lemma tidy_register:
  "tidy_of ids F D L \<Longrightarrow> k0 \<notin> set ids \<Longrightarrow> tidy_of (ids @ [k0]) F D (\<lambda>k. k = k0 \<or> L k)"
  unfolding tidy_of_def by fastforce

lemma tidy_timer:
  "tidy_of ids [] D L \<Longrightarrow> t = Finished \<or> (\<exists>j k d. t = AwaitStatus j k d \<and> L k) \<Longrightarrow>
   tidy_of ids (if t \<noteq> Finished then [t] else []) D L"
  unfolding tidy_of_def by (auto simp: not_less)

lemma tidy_dispatch:
  "tidy_of ids [AwaitStatus i k d] D L \<Longrightarrow>
   tidy_of ids [AwaitStop i k] (\<lambda>k'. D k' + (if k' = k then 1 else 0)) L"
  unfolding tidy_of_def by auto

lemma tidy_move:
  assumes "tidy_of ids [T] D L" and "\<And>k. L' k \<Longrightarrow> L k"
    and "\<And>i k. T = AwaitStop i k \<Longrightarrow> \<not> L' k"
    and "t = Finished \<or> (\<exists>j k d. t = AwaitStatus j k d \<and> L' k)"
  shows "tidy_of ids (if t \<noteq> Finished then [t] else []) D L'"
proof -
  have zero: "D k = 0" if "L' k" for k
  proof (rule ccontr)
    assume "D k \<noteq> 0"
    then have "0 < D k" by simp
    moreover have "L k" using that assms(2) by simp
    ultimately obtain i where "T = AwaitStop i k"
      using assms(1) unfolding tidy_of_def by blast
    then show False using assms(3) that by simp
  qed
  have ids: "k \<in> set ids" if "L' k" for k
    using that assms(1,2) unfolding tidy_of_def by blast
  show ?thesis
    using assms(1,4) zero ids unfolding tidy_of_def by auto
qed


lemma filter_single_update:
  "length (filter P xs) \<le> 1 \<Longrightarrow> n < length xs \<Longrightarrow> P (xs ! n) \<Longrightarrow>
   filter P xs = [xs ! n] \<and> filter P (xs[n := y]) = (if P y then [y] else [])"
proof (induction xs arbitrary: n)
  case Nil
  then show ?case by simp
next
  case (Cons x xs)
  show ?case
  proof (cases n)
    case 0
    with Cons.prems show ?thesis by (auto split: if_splits)
  next
    case (Suc n')
    with Cons.prems have n': "n' < length xs" "P (xs ! n')" by simp_all
    then have "xs ! n' \<in> set (filter P xs)" by simp
    then have ne: "filter P xs \<noteq> []" by force
    with Cons.prems have "\<not> P x" by (auto split: if_splits)
    with Cons.prems Cons.IH[OF _ n'] Suc show ?thesis by simp
  qed
qed

lemma map_has_after_delete: "map_has (map_delete k m) k' = (k' \<noteq> k \<and> map_has m k')"
  by (auto simp: map_has_def map_keys_delete)

lemma map_has_after_set: "map_has (map_set k v m) k' = (k' = k \<or> map_has m k')"
  by (auto simp: map_has_def map_keys_set)

lemma map_has_entry: "Some (k, v) \<in> set m \<Longrightarrow> map_has m k"
  by (force simp: map_has_def map_keys_def)

lemma loop_head_cases:
  "loop_head m i = (Finished, []) \<or>
   (\<exists>j k d. loop_head m i = (AwaitStatus j k d, [AxiosGet (baseUrl m @ ''/api/monitor/'' @ k)]) \<and>
      map_has (activeSessions m) k)"
proof (cases "next_entry (activeSessions m) i")
  case None
  then show ?thesis by (simp add: loop_head_def)
next
  case (Some e)
  obtain j k d where e: "e = (j, k, d)" by (cases e)
  have lh: "loop_head m i = (AwaitStatus j k d, [AxiosGet (baseUrl m @ ''/api/monitor/'' @ k)])"
    using Some e by (simp add: loop_head_def)
  from loop_head_position[OF lh]
  have "j - 1 < length (activeSessions m)" "activeSessions m ! (j - 1) = Some (k, d)"
    by auto
  then have "Some (k, d) \<in> set (activeSessions m)" by (metis nth_mem)
  then show ?thesis using lh map_has_entry by blast
qed

lemma checkSessions_cases:
  "checkSessions m = (Finished, []) \<or>
   (\<exists>j k d. checkSessions m = (AwaitStatus j k d, [AxiosGet (baseUrl m @ ''/api/monitor/'' @ k)]) \<and>
      map_has (activeSessions m) k)"
  using loop_head_cases[of m 0] by (simp add: checkSessions_def)

lemma after_status_cases:
  obtains (trigger) sd where "r = Resolves (Some sd)" "is_below_threshold sd"
      "after_status m i k d r =
         (m, AwaitStop i k,
          [SendNotification (userHandle d) (PriceAlert (symbol d) (price sd) (threshold d)),
           PurchaseProduct k (productUrl d) (size_v d) (userHandle d),
           AxiosPost (baseUrl m @ ''/api/monitor/'' @ k @ ''/stop'') NoBody])"
  | (skip) m' where "after_status m i k d r = (m', loop_head m' i)"
      "baseUrl m' = baseUrl m"
      "activeSessions m' = activeSessions m \<or>
       activeSessions m' = map_delete k (activeSessions m)"
proof (cases r)
  case (Rejects e)
  show ?thesis
  proof (cases "response_status e = Some 404")
    case True
    then show ?thesis
      using Rejects skip[of "m\<lparr>activeSessions := map_delete k (activeSessions m)\<rparr>"]
      by (simp add: after_status_def Let_def split_beta)
  next
    case False
    then show ?thesis using Rejects skip[of m] by (simp add: after_status_def split_beta)
  qed
next
  case (Resolves x)
  show ?thesis
  proof (cases x)
    case None
    then show ?thesis using Resolves skip[of m] by (simp add: after_status_def split_beta)
  next
    case (Some sd)
    show ?thesis
    proof (cases "is_below_threshold sd")
      case True
      then show ?thesis using Resolves Some trigger[of sd] by (simp add: after_status_def)
    next
      case False
      then show ?thesis using Resolves Some skip[of m] by (simp add: after_status_def split_beta)
    qed
  qed
qed

lemma after_stop_eq:
  "after_stop m i k r =
     (m\<lparr>activeSessions := map_delete k (activeSessions m)\<rparr>,
      loop_head (m\<lparr>activeSessions := map_delete k (activeSessions m)\<rparr>) i)"
  by (cases r) (simp_all add: after_stop_def split_beta Let_def)

lemma in_flight_flight: "(in_flight s = []) = (flight s = [])"
proof -
  have "(concat (map (\<lambda>t. case session_of t of None \<Rightarrow> [] | Some k \<Rightarrow> [k]) ts) = []) =
        (filter (\<lambda>t. t \<noteq> Finished) ts = [])" for ts
  proof (induction ts)
    case Nil
    show ?case by simp
  next
    case (Cons t ts)
    then show ?case by (cases t) simp_all
  qed
  then show ?thesis by (simp add: in_flight_def flight_def)
qed

lemma in_flight_length: "length (in_flight s) = length (flight s)"
proof -
  have "length (concat (map (\<lambda>t. case session_of t of None \<Rightarrow> [] | Some k \<Rightarrow> [k]) ts)) =
        length (filter (\<lambda>t. t \<noteq> Finished) ts)" for ts
  proof (induction ts)
    case Nil
    show ?case by simp
  next
    case (Cons t ts)
    then show ?case by (cases t) simp_all
  qed
  then show ?thesis by (simp add: in_flight_def flight_def)
qed


lemma tidyI:
  assumes "tidy_of ids F D L" and "flight s' = F" and "\<And>k. dispatches k s' = D k"
    and "\<And>k. live s' k = L k"
  shows "tidy ids s'"
proof -
  have "(\<lambda>k. dispatches k s') = D" "live s' = L" using assms(3,4) by auto
  then show ?thesis using assms(1,2) by (simp add: tidy_def)
qed

lemma tidy_same:
  assumes "tidy ids s" and "flight s' = flight s" and "\<And>k. dispatches k s' = dispatches k s"
    and "\<And>k. live s' k = live s k"
  shows "tidy ids s'"
proof -
  have "tidy_of ids (flight s) (\<lambda>k. dispatches k s) (live s)"
    using assms(1) by (simp add: tidy_def)
  then show ?thesis by (rule tidyI) (simp_all add: assms)
qed

lemma startPolling_sessions:
  "activeSessions (fst (startPolling m h)) = activeSessions m \<and>
   filter (is_dispatch k) (snd (startPolling m h)) = []"
  by (simp add: startPolling_def)

lemma stopPolling_sessions:
  "activeSessions (fst (stopPolling m)) = activeSessions m \<and>
   filter (is_dispatch k) (snd (stopPolling m)) = []"
  by (simp add: stopPolling_def split: option.splits)

lemma issued_failed:
  assumes "r = Rejects err \<or> (\<exists>sid. r = Resolves sid \<and> \<not> truthy sid)"
  shows "issued (CallStartMonitoring now sy th handle url sz r) = []"
proof (cases r)
  case (Rejects e)
  then show ?thesis by simp
next
  case (Resolves sid)
  with assms have "\<not> truthy sid" by simp
  then have "sid = None \<or> sid = Some []" by (cases sid) (simp_all add: truthy_def)
  then show ?thesis using Resolves by auto
qed

lemma tidy_step:
  assumes t: "tidy ids s"
    and seq: "\<And>h. e = TimerFires h \<Longrightarrow> flight s = []"
    and fresh: "set (issued e) \<inter> set ids = {}"
  shows "tidy (ids @ issued e) (step s e)"
proof (cases e)
  case (CallStartMonitoring now sy th handle url sz r)
  show ?thesis
  proof (cases rule: startMonitoring_cases[of "mon s" "next_handle s" now sy th handle url sz r])
    case (failed err)
    have "issued e = []"
      unfolding CallStartMonitoring using failed(2) by (rule issued_failed)
    moreover have "tidy ids (step s e)"
      using t
    proof (rule tidy_same)
      show "flight (step s e) = flight s"
        using CallStartMonitoring failed(1) by (simp add:  flight_def perform_all_fields)
      show "dispatches k (step s e) = dispatches k s" for k
        using CallStartMonitoring failed(1)
        by (simp add:  dispatches_def perform_all_fields)
      show "live (step s e) k = live s k" for k
        using CallStartMonitoring failed(1) by (simp add:  live_def perform_all_fields)
    qed
    ultimately show ?thesis by simp
  next
    case (stored k)
    have iss: "issued e = [k]" using CallStartMonitoring stored(1,2) by simp
    then have k: "k \<notin> set ids" using fresh by simp
    let ?v = "\<lparr>userHandle = handle, productUrl = url, size_v = sz, symbol = sy,
                  threshold = th, startTime = now\<rparr>"
    let ?m = "(mon s)\<lparr>activeSessions := map_set k ?v (activeSessions (mon s))\<rparr>"
    have st: "step s e =
        perform_all (s\<lparr>mon := fst (startPolling ?m (next_handle s))\<rparr>)
          (AxiosPost (baseUrl (mon s) @ ''/api/monitor/start'') (MonitorStart sy (Number th) 10) #
           snd (startPolling ?m (next_handle s)))"
      using CallStartMonitoring stored(3) by simp
    have "tidy_of (ids @ [k]) (flight s) (\<lambda>k'. dispatches k' s) (\<lambda>k'. k' = k \<or> live s k')"
      using t k unfolding tidy_def by (rule tidy_register)
    then have "tidy (ids @ [k]) (step s e)"
    proof (rule tidyI)
      show "flight (step s e) = flight s"
        unfolding st by (simp add:  flight_def perform_all_fields)
      show "dispatches k' (step s e) = dispatches k' s" for k'
        unfolding st using startPolling_sessions[of ?m "next_handle s" k']
        by (simp add:  dispatches_def perform_all_fields)
      show "live (step s e) k' = (k' = k \<or> live s k')" for k'
        unfolding st using startPolling_sessions[of ?m "next_handle s" k']
        by (simp add:  live_def map_has_after_set perform_all_fields)
    qed
    then show ?thesis using iss by simp
  qed
next
  case CallStartPolling
  have "tidy ids (step s e)"
    using t
  proof (rule tidy_same)
    show "flight (step s e) = flight s"
      using CallStartPolling by (simp add: split_beta flight_def perform_all_fields)
    show "dispatches k (step s e) = dispatches k s" for k
      using CallStartPolling startPolling_sessions[of "mon s" "next_handle s" k]
      by (simp add: split_beta dispatches_def perform_all_fields)
    show "live (step s e) k = live s k" for k
      using CallStartPolling startPolling_sessions[of "mon s" "next_handle s" k]
      by (simp add: split_beta live_def perform_all_fields)
  qed
  then show ?thesis using CallStartPolling by simp
next
  case CallStopPolling
  have "tidy ids (step s e)"
    using t
  proof (rule tidy_same)
    show "flight (step s e) = flight s"
      using CallStopPolling by (simp add: split_beta flight_def perform_all_fields)
    show "dispatches k (step s e) = dispatches k s" for k
      using CallStopPolling stopPolling_sessions[of "mon s" k]
      by (simp add: split_beta dispatches_def perform_all_fields)
    show "live (step s e) k = live s k" for k
      using CallStopPolling stopPolling_sessions[of "mon s" k]
      by (simp add: split_beta live_def perform_all_fields)
  qed
  then show ?thesis using CallStopPolling by simp
next
  case (TimerFires h)
  have idle: "flight s = []" using seq TimerFires by simp
  show ?thesis
  proof (cases "h \<in> set (timers s)")
    case False
    then show ?thesis using TimerFires t by simp
  next
    case True
    let ?t = "fst (checkSessions (mon s))"
    let ?fx = "snd (checkSessions (mon s))"
    have st: "step s e = perform_all (s\<lparr>ticks := ticks s @ [?t]\<rparr>) ?fx"
      using TimerFires True by (simp add: split_beta)
    have shape: "?t = Finished \<or> (\<exists>j k d. ?t = AwaitStatus j k d \<and> live s k)"
      and nodisp: "filter (is_dispatch k) ?fx = []" for k
      using checkSessions_cases[of "mon s"] by (auto simp: live_def)
    have "tidy_of ids (if ?t \<noteq> Finished then [?t] else []) (\<lambda>k. dispatches k s) (live s)"
      by (rule tidy_timer) (use t idle shape in \<open>simp_all add: tidy_def\<close>)
    then have "tidy ids (step s e)"
    proof (rule tidyI)
      show "flight (step s e) = (if ?t \<noteq> Finished then [?t] else [])"
        unfolding st using idle by (simp add:  flight_def perform_all_fields)
      show "dispatches k (step s e) = dispatches k s" for k
        unfolding st using nodisp[of k]
        by (simp add:  dispatches_def perform_all_fields)
      show "live (step s e) k = live s k" for k
        unfolding st by (simp add:  live_def perform_all_fields)
    qed
    then show ?thesis using TimerFires by simp
  qed
next
  case (StatusSettles n r)
  show ?thesis
  proof (cases "n < length (ticks s) \<and> (\<exists>i k d. ticks s ! n = AwaitStatus i k d)")
    case False
    then have "step s e = s" using StatusSettles by (auto split: tick.splits)
    then show ?thesis using t StatusSettles by simp
  next
    case True
    then obtain i k d where n: "n < length (ticks s)" and tn: "ticks s ! n = AwaitStatus i k d"
      by blast
    have one: "length (filter (\<lambda>t. t \<noteq> Finished) (ticks s)) \<le> 1"
      using t by (simp add: tidy_def tidy_of_def flight_def)
    have fl: "flight s = [AwaitStatus i k d]"
      and fl': "filter (\<lambda>t. t \<noteq> Finished) ((ticks s)[n := y]) = (if y \<noteq> Finished then [y] else [])" for y
      using filter_single_update[OF one n, of y] tn by (simp_all add: flight_def)
    show ?thesis
    proof (cases rule: after_status_cases[of r "mon s" i k d])
      case (trigger sd)
      let ?fx = "[SendNotification (userHandle d) (PriceAlert (symbol d) (price sd) (threshold d)),
           PurchaseProduct k (productUrl d) (size_v d) (userHandle d),
           AxiosPost (baseUrl (mon s) @ ''/api/monitor/'' @ k @ ''/stop'') NoBody]"
      have st: "step s e = perform_all (s\<lparr>mon := mon s, ticks := (ticks s)[n := AwaitStop i k]\<rparr>) ?fx"
        using StatusSettles n tn trigger(3) by simp
      have "tidy_of ids [AwaitStop i k] (\<lambda>k'. dispatches k' s + (if k' = k then 1 else 0)) (live s)"
        by (rule tidy_dispatch[where d = d]) (use t fl in \<open>simp add: tidy_def\<close>)
      then have "tidy ids (step s e)"
      proof (rule tidyI)
        show "flight (step s e) = [AwaitStop i k]"
          unfolding st by (simp add: flight_def perform_all_fields fl')
        show "dispatches k' (step s e) = dispatches k' s + (if k' = k then 1 else 0)" for k'
          unfolding st by (simp add:  dispatches_def perform_all_fields)
        show "live (step s e) k' = live s k'" for k'
          unfolding st by (simp add:  live_def perform_all_fields)
      qed
      then show ?thesis using StatusSettles by simp
    next
      case (skip m')
      let ?t = "fst (loop_head m' i)"
      let ?fx = "snd (loop_head m' i)"
      have st: "step s e = perform_all (s\<lparr>mon := m', ticks := (ticks s)[n := ?t]\<rparr>) ?fx"
        using StatusSettles n tn skip(1) by (simp add: split_beta)
      have sub: "map_has (activeSessions m') k' \<Longrightarrow> live s k'" for k'
        using skip(3) by (auto simp: live_def map_has_after_delete)
      have shape: "?t = Finished \<or> (\<exists>j k d. ?t = AwaitStatus j k d \<and> map_has (activeSessions m') k)"
        and nodisp: "filter (is_dispatch k') ?fx = []" for k'
        using loop_head_cases[of m' i] by auto
      have "tidy_of ids (if ?t \<noteq> Finished then [?t] else []) (\<lambda>k. dispatches k s)
              (map_has (activeSessions m'))"
        by (rule tidy_move[where T = "AwaitStatus i k d" and L = "live s"])
          (use t fl sub shape in \<open>simp_all add: tidy_def\<close>)
      then have "tidy ids (step s e)"
      proof (rule tidyI)
        show "flight (step s e) = (if ?t \<noteq> Finished then [?t] else [])"
          unfolding st by (simp add: flight_def perform_all_fields fl')
        show "dispatches k' (step s e) = dispatches k' s" for k'
          unfolding st using nodisp[of k']
          by (simp add:  dispatches_def perform_all_fields)
        show "live (step s e) k' = map_has (activeSessions m') k'" for k'
          unfolding st by (simp add:  live_def perform_all_fields)
      qed
      then show ?thesis using StatusSettles by simp
    qed
  qed
next
  case (StopSettles n r)
  show ?thesis
  proof (cases "n < length (ticks s) \<and> (\<exists>i k. ticks s ! n = AwaitStop i k)")
    case False
    then have "step s e = s" using StopSettles by (auto split: tick.splits)
    then show ?thesis using t StopSettles by simp
  next
    case True
    then obtain i k where n: "n < length (ticks s)" and tn: "ticks s ! n = AwaitStop i k"
      by blast
    have one: "length (filter (\<lambda>t. t \<noteq> Finished) (ticks s)) \<le> 1"
      using t by (simp add: tidy_def tidy_of_def flight_def)
    have fl: "flight s = [AwaitStop i k]"
      and fl': "filter (\<lambda>t. t \<noteq> Finished) ((ticks s)[n := y]) = (if y \<noteq> Finished then [y] else [])" for y
      using filter_single_update[OF one n, of y] tn by (simp_all add: flight_def)
    let ?m = "(mon s)\<lparr>activeSessions := map_delete k (activeSessions (mon s))\<rparr>"
    let ?t = "fst (loop_head ?m i)"
    let ?fx = "snd (loop_head ?m i)"
    have st: "step s e = perform_all (s\<lparr>mon := ?m, ticks := (ticks s)[n := ?t]\<rparr>) ?fx"
      using StopSettles n tn by (simp add: after_stop_eq split_beta)
    have sub: "map_has (activeSessions ?m) k' \<Longrightarrow> live s k'" for k'
      by (simp add: live_def map_has_after_delete)
    have gone: "\<not> map_has (activeSessions ?m) k"
      by (simp add: map_has_after_delete)
    have shape: "?t = Finished \<or> (\<exists>j k d. ?t = AwaitStatus j k d \<and> map_has (activeSessions ?m) k)"
      and nodisp: "filter (is_dispatch k') ?fx = []" for k'
      using loop_head_cases[of ?m i] by auto
    have "tidy_of ids (if ?t \<noteq> Finished then [?t] else []) (\<lambda>k. dispatches k s)
            (map_has (activeSessions ?m))"
      by (rule tidy_move[where T = "AwaitStop i k" and L = "live s"])
        (use t fl sub shape gone in \<open>simp_all add: tidy_def\<close>)
    then have "tidy ids (step s e)"
    proof (rule tidyI)
      show "flight (step s e) = (if ?t \<noteq> Finished then [?t] else [])"
        unfolding st by (simp add: flight_def perform_all_fields fl')
      show "dispatches k' (step s e) = dispatches k' s" for k'
        unfolding st using nodisp[of k']
        by (simp add:  dispatches_def perform_all_fields)
      show "live (step s e) k' = map_has (activeSessions ?m) k'" for k'
        unfolding st by (simp add:  live_def perform_all_fields)
    qed
    then show ?thesis using StopSettles by simp
  qed
qed


lemma run_Cons: "run s (e # evs) = run (step s e) evs"
  by (simp add: run_def)

lemma sequential_snoc:
  "sequential s (evs @ [e]) =
     (sequential s evs \<and> (fires e \<longrightarrow> in_flight (run s evs) = []))"
proof (induction evs arbitrary: s)
  case Nil
  show ?case by (simp add: run_def)
next
  case (Cons a evs)
  then show ?case by (simp add: run_Cons)
qed

lemma tidy_init: "tidy [] init"
  by (simp add: tidy_def tidy_of_def flight_def dispatches_def live_def init_def new_monitor_def
      map_has_def map_keys_def)

lemma tidy_run:
  "sequential init evs \<Longrightarrow> fresh_ids evs \<Longrightarrow> tidy (concat (map issued evs)) (run init evs)"
proof (induction evs rule: rev_induct)
  case Nil
  show ?case using tidy_init by (simp add: run_def)
next
  case (snoc e evs)
  from snoc.prems(1) have s: "sequential init evs"
    and tf: "\<And>h. e = TimerFires h \<Longrightarrow> flight (run init evs) = []"
    by (auto simp: sequential_snoc in_flight_flight)
  from snoc.prems(2) have f: "fresh_ids evs"
    and d: "set (issued e) \<inter> set (concat (map issued evs)) = {}"
    by (auto simp: fresh_ids_def)
  have "tidy (concat (map issued evs) @ issued e) (step (run init evs) e)"
    using snoc.IH[OF s f] tf d by (rule tidy_step)
  then show ?case by (simp add: run_snoc)
qed

lemma ticks_call:
  "ticks (step s (CallStartMonitoring now sy th handle url sz r)) = ticks s"
  "ticks (step s CallStartPolling) = ticks s"
  "ticks (step s CallStopPolling) = ticks s"
  by (simp_all add: split_beta perform_all_fields)

lemma flight_step:
  assumes one: "length (flight s) \<le> 1"
    and seq: "\<And>h. e = TimerFires h \<Longrightarrow> flight s = []"
  shows "length (flight (step s e)) \<le> 1"
proof (cases e)
  case (CallStartMonitoring now sy th handle url sz r)
  then show ?thesis using one by (simp add: flight_def ticks_call del: step.simps)
next
  case CallStartPolling
  then show ?thesis using one by (simp add: flight_def ticks_call del: step.simps)
next
  case CallStopPolling
  then show ?thesis using one by (simp add: flight_def ticks_call del: step.simps)
next
  case (TimerFires h)
  then have "flight s = []" by (rule seq)
  then show ?thesis
    using TimerFires by (simp add: flight_def split_beta perform_all_fields)
next
  case (StatusSettles n r)
  show ?thesis
  proof (cases "n < length (ticks s) \<and> (\<exists>i k d. ticks s ! n = AwaitStatus i k d)")
    case False
    then have "step s e = s" using StatusSettles by (auto split: tick.splits)
    then show ?thesis using one by simp
  next
    case True
    then obtain i k d where n: "n < length (ticks s)" and tn: "ticks s ! n = AwaitStatus i k d"
      by blast
    have "filter (\<lambda>t. t \<noteq> Finished) ((ticks s)[n := y]) = (if y \<noteq> Finished then [y] else [])" for y
      using filter_single_update[of "\<lambda>t. t \<noteq> Finished" "ticks s" n y] one n tn
      by (simp add: flight_def)
    then show ?thesis
      using StatusSettles n tn by (simp add: flight_def split_beta perform_all_fields)
  qed
next
  case (StopSettles n r)
  show ?thesis
  proof (cases "n < length (ticks s) \<and> (\<exists>i k. ticks s ! n = AwaitStop i k)")
    case False
    then have "step s e = s" using StopSettles by (auto split: tick.splits)
    then show ?thesis using one by simp
  next
    case True
    then obtain i k where n: "n < length (ticks s)" and tn: "ticks s ! n = AwaitStop i k"
      by blast
    have "filter (\<lambda>t. t \<noteq> Finished) ((ticks s)[n := y]) = (if y \<noteq> Finished then [y] else [])" for y
      using filter_single_update[of "\<lambda>t. t \<noteq> Finished" "ticks s" n y] one n tn
      by (simp add: flight_def)
    then show ?thesis
      using StopSettles n tn by (simp add: flight_def split_beta perform_all_fields)
  qed
qed

lemma flight_run: "sequential init evs \<Longrightarrow> length (flight (run init evs)) \<le> 1"
proof (induction evs rule: rev_induct)
  case Nil
  show ?case by (simp add: run_def flight_def init_def)
next
  case (snoc e evs)
  from snoc.prems have s: "sequential init evs"
    and tf: "\<And>h. e = TimerFires h \<Longrightarrow> flight (run init evs) = []"
    by (auto simp: sequential_snoc in_flight_flight)
  show ?case
    unfolding run_snoc using snoc.IH[OF s] tf by (rule flight_step)
qed

text \<open>
  Claim C4 fails. The timer starts a tick at every period, whether or not the tick
  before has finished. Here the status request of the first tick has not settled when
  the timer fires again: the second tick starts and both ticks are at session
  \<open>s1\<close> at once.
\<close>

theorem ticks_overlap_when_request_outlasts_interval:
  "in_flight (run init [register_jacket, TimerFires 0, TimerFires 0]) = [''s1'', ''s1''] \<and>
   \<not> distinct (in_flight (run init [register_jacket, TimerFires 0, TimerFires 0]))"
  by code_simp

text \<open>
  Claim C4 as amended. In a run in which every firing of the timer finds the earlier
  ticks finished, at most one tick is in flight at any time, so no session is
  processed by two ticks at once. Nothing in the code keeps a tick from starting
  while an earlier one is suspended.
\<close>

theorem no_overlap_when_ticks_finish_in_time:
  assumes "sequential init evs"
  shows "length (in_flight (run init evs)) \<le> 1 \<and> distinct (in_flight (run init evs))"
proof -
  have "length (in_flight (run init evs)) \<le> 1"
    using flight_run[OF assms] by (simp add: in_flight_length)
  moreover from this have "distinct (in_flight (run init evs))"
    by (cases "in_flight (run init evs)") auto
  ultimately show ?thesis by simp
qed

text \<open>
  Claim C1 fails when ticks overlap. Two ticks are suspended at the status request of
  session \<open>s1\<close>; both requests report a price below the threshold, and each tick
  notifies the user and dispatches a purchase before either has removed the session.
\<close>

theorem overlapping_ticks_dispatch_twice:
  "dispatches ''s1'' (run init overlapping_run) = 2"
  by code_simp

text \<open>
  Claim C1 as amended. When the status request of a session reports
  \<open>is_below_threshold\<close>, the tick sends one price alert to the \<open>userHandle\<close> of
  the session, calls \<open>purchaseProduct\<close> once with its \<open>productUrl\<close>, \<open>size\<close>
  and \<open>userHandle\<close>, and sends the stop request; when that request settles, with
  success or failure, the session is removed (the outcome of the purchase, which is
  not awaited, plays no part). A tick only checks sessions that are registered.
  Hence, in every run in which ticks do not overlap (and PriceFeed issues each
  session identifier once), at most one purchase is dispatched for a session, and a
  session that was dispatched is not registered whenever no tick is in flight, so no
  later tick finds it.
\<close>

theorem at_most_one_dispatch_without_overlap:
  "(is_below_threshold sd \<longrightarrow>
      after_status m i sessionId data (Resolves (Some sd)) =
        (m, AwaitStop i sessionId,
         [SendNotification (userHandle data)
            (PriceAlert (symbol data) (price sd) (threshold data)),
          PurchaseProduct sessionId (productUrl data) (size_v data) (userHandle data),
          AxiosPost (baseUrl m @ ''/api/monitor/'' @ sessionId @ ''/stop'') NoBody])) \<and>
   \<not> map_has (activeSessions (fst (after_stop m i sessionId r))) sessionId \<and>
   (loop_head m i = (AwaitStatus j sessionId data, fx) \<longrightarrow> map_has (activeSessions m) sessionId) \<and>
   (sequential init evs \<and> fresh_ids evs \<longrightarrow>
      dispatches sessionId (run init evs) \<le> 1 \<and>
      (0 < dispatches sessionId (run init evs) \<and> in_flight (run init evs) = [] \<longrightarrow>
         \<not> map_has (activeSessions (mon (run init evs))) sessionId))"
proof -
  have a: "is_below_threshold sd \<Longrightarrow>
      after_status m i sessionId data (Resolves (Some sd)) =
        (m, AwaitStop i sessionId,
         [SendNotification (userHandle data)
            (PriceAlert (symbol data) (price sd) (threshold data)),
          PurchaseProduct sessionId (productUrl data) (size_v data) (userHandle data),
          AxiosPost (baseUrl m @ ''/api/monitor/'' @ sessionId @ ''/stop'') NoBody])"
    by (simp add: after_status_def)
  have b: "\<not> map_has (activeSessions (fst (after_stop m i sessionId r))) sessionId"
    by (simp add: after_stop_eq map_has_after_delete)
  have c: "loop_head m i = (AwaitStatus j sessionId data, fx) \<Longrightarrow> map_has (activeSessions m) sessionId"
    using loop_head_cases[of m i] by auto
  have d: "dispatches sessionId (run init evs) \<le> 1 \<and>
      (0 < dispatches sessionId (run init evs) \<and> in_flight (run init evs) = [] \<longrightarrow>
         \<not> map_has (activeSessions (mon (run init evs))) sessionId)"
    if "sequential init evs \<and> fresh_ids evs"
  proof -
    from that have t: "tidy_of (concat (map issued evs)) (flight (run init evs))
        (\<lambda>k. dispatches k (run init evs)) (live (run init evs))"
      using tidy_run[of evs] by (simp add: tidy_def)
    then have "dispatches sessionId (run init evs) \<le> 1" by (simp add: tidy_of_def)
    moreover have "\<not> map_has (activeSessions (mon (run init evs))) sessionId"
      if "0 < dispatches sessionId (run init evs)" "in_flight (run init evs) = []"
    proof
      assume "map_has (activeSessions (mon (run init evs))) sessionId"
      then have "live (run init evs) sessionId" by (simp add: live_def)
      with t that(1) obtain i' where "flight (run init evs) = [AwaitStop i' sessionId]"
        unfolding tidy_of_def by blast
      with that(2) show False by (simp add: in_flight_flight)
    qed
    ultimately show ?thesis by blast
  qed
  show ?thesis using a b c d by blast
qed

theorem no_overlap_when_ticks_finish_in_time_witness:
  "sequential init retry_run \<and> in_flight (run init retry_run) = [''s1'']"
proof -
  have s: "sequential init retry_run" by code_simp
  have f: "in_flight (run init retry_run) = [''s1'']" by code_simp
  show ?thesis using s f no_overlap_when_ticks_finish_in_time[OF s] by simp
qed

theorem at_most_one_dispatch_without_overlap_witness:
  "after_status watching 1 ''s1'' jacket below =
     (watching, AwaitStop 1 ''s1'',
      [SendNotification ''+15551234567'' (PriceAlert ''ETH/USD'' (Finite 2400) (Finite 2500)),
       PurchaseProduct ''s1'' ''https://shop.example/jacket'' ''Medium'' ''+15551234567'',
       AxiosPost ''https://applaudable-unspeckled-kimberley.ngrok-free.dev/api/monitor/s1/stop''
         NoBody]) \<and>
   sequential init orderly_run \<and> fresh_ids orderly_run \<and>
   dispatches ''s1'' (run init orderly_run) = 1 \<and>
   in_flight (run init orderly_run) = [] \<and>
   \<not> map_has (activeSessions (mon (run init orderly_run))) ''s1''"
proof -
  have b: "is_below_threshold cheap" by (simp add: cheap_def)
  have n: "in_flight (run init orderly_run) = []" by code_simp
  have s: "sequential init orderly_run" by code_simp
  have f: "fresh_ids orderly_run" by code_simp
  have d: "dispatches ''s1'' (run init orderly_run) = 1" by code_simp
  have g: "\<not> map_has (activeSessions (mon (run init orderly_run))) ''s1''" by code_simp
  have u: "baseUrl watching @ ''/api/monitor/'' @ ''s1'' @ ''/stop'' =
      ''https://applaudable-unspeckled-kimberley.ngrok-free.dev/api/monitor/s1/stop''"
    by (simp add: watching_def new_monitor_def)
  show ?thesis
    using b s f d n g u
      at_most_one_dispatch_without_overlap[where sd = cheap and m = watching and i = 1
        and sessionId = "''s1''" and data = jacket and evs = orderly_run and r = stop_fails
        and j = 1 and fx = "[]"]
    by (simp add: below_def jacket_def cheap_def)
qed

end
